theory Spec2Isabelle
  imports Main "HOL-Library.Sublist"
begin

section \<open>Characters and strings\<close>

text \<open>
  A Python \<open>str\<close> is modelled as a \<open>string\<close>; a \<open>char\<close> stands for a code point
  below 256. The character classes are those of the \<open>re\<close> module on such code points.
\<close>

definition newline :: char where
  "newline = CHR 0x0A"

definition gt :: char where
  "gt = CHR ''>''"

definition backslash :: char where
  "backslash = CHR 0x5C"

definition nul :: char where
  "nul = CHR 0x00"

definition whitespace_chars :: "char list" where
  "whitespace_chars =
     [CHR 0x09, CHR 0x0A, CHR 0x0B, CHR 0x0C, CHR 0x0D,
      CHR 0x1C, CHR 0x1D, CHR 0x1E, CHR 0x1F, CHR 0x20, CHR 0x85, CHR 0xA0]"

text \<open>The class \<open>\s\<close> of a \<open>str\<close> pattern.\<close>

definition is_space :: "char \<Rightarrow> bool" where
  "is_space c = (c \<in> set whitespace_chars)"

text \<open>The class \<open>.\<close> (no DOTALL flag): anything but a newline.\<close>

definition is_dot :: "char \<Rightarrow> bool" where
  "is_dot c = (c \<noteq> newline)"

text \<open>Lower-casing of one code point, as the IGNORECASE flag applies it.\<close>

definition py_lower :: "char \<Rightarrow> char" where
  "py_lower c =
     (let n = (of_char c :: nat)
      in if (65 \<le> n \<and> n \<le> 90) \<or> (192 \<le> n \<and> n \<le> 222 \<and> n \<noteq> 215)
         then char_of (n + 32) else c)"

section \<open>The quote pattern\<close>

text \<open>
  \<^verbatim>\<open>re.compile(r"(?P<author>.*?)\s*>\s*(?P<content>.+)")\<close>, used through
  \<open>fullmatch\<close>. The matcher below follows the backtracking order of the pattern, piece
  by piece; each piece takes what it may consume and hands the rest to what follows.
\<close>

text \<open>\<open>(?P<content>.+)\<close> up to the end of the string: the group is the whole rest.\<close>

definition content_group :: "string \<Rightarrow> string option" where
  "content_group s = (if s \<noteq> [] \<and> list_all is_dot s then Some s else None)"

text \<open>
  \<open>\s*\<close>, greedy, followed by \<open>k\<close>: one more whitespace character is tried first, and
  only when what follows fails from there is it given back.
\<close>

fun spaces_then :: "(string \<Rightarrow> 'a option) \<Rightarrow> string \<Rightarrow> 'a option" where
  "spaces_then k [] = k []"
| "spaces_then k (c # cs) =
     (if is_space c
      then (case spaces_then k cs of Some r \<Rightarrow> Some r | None \<Rightarrow> k (c # cs))
      else k (c # cs))"

text \<open>The literal \<open>>\<close> followed by \<open>\s*(?P<content>.+)\<close>.\<close>

definition separator_then :: "string \<Rightarrow> string option" where
  "separator_then s =
     (case s of [] \<Rightarrow> None
      | c # cs \<Rightarrow> if c = gt then spaces_then content_group cs else None)"

text \<open>\<open>\s*>\s*(?P<content>.+)\<close>: everything after the author group.\<close>

definition after_author :: "string \<Rightarrow> string option" where
  "after_author s = spaces_then separator_then s"

text \<open>
  \<open>(?P<author>.*?)\<close>, lazy: the rest of the pattern is tried first, and only when it
  fails does the group take one more character (never a newline). \<open>acc\<close> is what the
  group holds so far.
\<close>

fun author_group :: "string \<Rightarrow> string \<Rightarrow> (string \<times> string) option" where
  "author_group acc [] =
     (case after_author [] of Some c \<Rightarrow> Some (acc, c) | None \<Rightarrow> None)"
| "author_group acc (x # xs) =
     (case after_author (x # xs) of
        Some c \<Rightarrow> Some (acc, c)
      | None \<Rightarrow> if is_dot x then author_group (acc @ [x]) xs else None)"

text \<open>
  \<open>re_quote.fullmatch(body)\<close>: \<open>None\<close>, or the groups \<open>author\<close> and \<open>content\<close> of the
  match.
\<close>

definition re_quote_fullmatch :: "string \<Rightarrow> (string \<times> string) option" where
  "re_quote_fullmatch body = author_group [] body"

section \<open>Escaping and case-insensitive search\<close>

definition alphanum_chars :: "char list" where
  "alphanum_chars =
     ''_abcdefghijklmnopqrstuvwxyzABCDEFGHIJKLMNOPQRSTUVWXYZ0123456789''"

definition is_alphanum :: "char \<Rightarrow> bool" where
  "is_alphanum c = (c \<in> set alphanum_chars)"

text \<open>
  \<open>re.escape\<close> of the Python versions the bot's client library runs on (up to 3.6):
  every character but ASCII letters, digits and the underscore gets a backslash, and
  the null character becomes \<open>\000\<close>.
\<close>

fun re_escape :: "string \<Rightarrow> string" where
  "re_escape [] = []"
| "re_escape (c # cs) =
     (if is_alphanum c then [c]
      else if c = nul then [backslash, CHR ''0'', CHR ''0'', CHR ''0'']
      else [backslash, c]) @ re_escape cs"

text \<open>
  A compiled pattern, as far as the bot can build one: a sequence of items, each a
  literal character or the wildcard \<open>.\<close>. In the pattern text \<open>\000\<close> is the null
  character, a backslash before any other character that is not alphanumeric makes
  it literal, an unescaped \<open>.\<close> is the wildcard, and every other character stands for
  itself. The remaining metacharacters are not interpreted: \<open>re.escape\<close> leaves none
  of them unescaped.
\<close>

datatype re_item = Literal char | AnyChar

definition plain_item :: "char \<Rightarrow> re_item" where
  "plain_item c = (if c = CHR ''.'' then AnyChar else Literal c)"

fun re_items :: "string \<Rightarrow> re_item list" where
  "re_items [] = []"
| "re_items [c] = [plain_item c]"
| "re_items (c # d # cs) =
     (if c \<noteq> backslash then plain_item c # re_items (d # cs)
      else (case cs of
              e # f # r \<Rightarrow>
                if d = CHR ''0'' \<and> e = CHR ''0'' \<and> f = CHR ''0''
                then Literal nul # re_items r
                else Literal d # re_items cs
            | _ \<Rightarrow> Literal d # re_items cs))"

text \<open>
  One item against one character of the text, under IGNORECASE and without DOTALL: a
  literal matches up to letter case, the wildcard matches anything but a newline.
\<close>

fun item_matches :: "re_item \<Rightarrow> char \<Rightarrow> bool" where
  "item_matches (Literal p) t = (py_lower p = py_lower t)"
| "item_matches AnyChar t = (t \<noteq> newline)"

text \<open>The items \<open>ps\<close> match at the start of the text.\<close>

fun match_here :: "re_item list \<Rightarrow> string \<Rightarrow> bool" where
  "match_here [] ts = True"
| "match_here (p # ps) [] = False"
| "match_here (p # ps) (t # ts) = (item_matches p t \<and> match_here ps ts)"

text \<open>The leftmost position at which they match, if any: only whether there is one.\<close>

fun search_items :: "re_item list \<Rightarrow> string \<Rightarrow> bool" where
  "search_items ps [] = match_here ps []"
| "search_items ps (t # ts) = (match_here ps (t # ts) \<or> search_items ps ts)"

text \<open>
  \<open>re.search(pattern, text, flags=re.IGNORECASE)\<close> as a truth value (a match object
  is true, \<open>None\<close> is false).
\<close>

definition re_search_ignorecase :: "string \<Rightarrow> string \<Rightarrow> bool" where
  "re_search_ignorecase pattern text = search_items (re_items pattern) text"

text \<open>\<open>s.find(sub)\<close>: the lowest index at which \<open>sub\<close> occurs in \<open>s\<close>, or -1.\<close>

fun str_find :: "string \<Rightarrow> string \<Rightarrow> int" where
  "str_find [] sub = (if sub = [] then 0 else - 1)"
| "str_find (c # cs) sub =
     (if prefix sub (c # cs) then 0
      else (let k = str_find cs sub in if k < 0 then - 1 else k + 1))"

section \<open>The platform's data\<close>

text \<open>
  A member as the client library hands it over. Its identifier is the platform's, a
  number held as the string of its decimal digits.
\<close>

record member =
  user_id :: string
  name :: string
  discriminator :: string
  display_name :: string
  avatar_url :: string

record message =
  content :: string
  author :: member
  channel :: string
  server :: "string option"
  timestamp :: int
  edited_timestamp :: "int option"

record embed =
  description :: string
  author_name :: string
  author_icon_url :: string
  footer_text :: string
  footer_icon_url :: string
  embed_timestamp :: int

datatype exn = Forbidden | NotFound | HTTPException | AttributeError

datatype call =
    LogsFrom string nat message
  | SendMessage string embed
  | DeleteMessage message

text \<open>
  What the platform answers during one event: the log of each channel, most recent
  message first; whether the bot's member may send in a channel; and how the send and
  the delete request end (\<open>None\<close>: they succeed).
\<close>

record platform =
  channel_log :: "string \<Rightarrow> message list"
  send_messages :: "string \<Rightarrow> bool"
  send_failure :: "exn option"
  delete_failure :: "exn option"

text \<open>
  \<open>logs_from(channel, limit, before)\<close> of the client library: at most \<open>limit\<close>
  messages of the channel older than \<open>before\<close>, most recent first.
\<close>

definition logs_from :: "platform \<Rightarrow> string \<Rightarrow> nat \<Rightarrow> message \<Rightarrow> message list" where
  "logs_from p ch limit before =
     take limit (filter (\<lambda>m. timestamp m < timestamp before) (channel_log p ch))"

definition log_fetch_limit :: nat where
  "log_fetch_limit = 100"

section \<open>The bot\<close>

definition is_same_user :: "member \<Rightarrow> string \<Rightarrow> bool" where
  "is_same_user user_obj user_str0 =
     (let user_str = re_escape user_str0;
          user_obj_full_name = name user_obj @ ''#'' @ discriminator user_obj
      in if str_find (user_id user_obj) user_str = 0
            \<or> re_search_ignorecase user_str user_obj_full_name
            \<or> re_search_ignorecase user_str (display_name user_obj)
         then True else False)"

text \<open>The loop of \<open>search_message_by_quote\<close> over the fetched messages.\<close>

fun scan_messages :: "string \<Rightarrow> string \<Rightarrow> message list \<Rightarrow> message option" where
  "scan_messages a c [] = None"
| "scan_messages a c (m # ms) =
     (if a = [] \<or> is_same_user (author m) a
      then (if re_search_ignorecase (re_escape c) (content m)
            then Some m else scan_messages a c ms)
      else scan_messages a c ms)"

text \<open>
  \<open>fullmatch(...)\<close> is \<open>None\<close> for a body that is no quote, and \<open>.groupdict()\<close> of
  \<open>None\<close> raises \<open>AttributeError\<close> before anything is fetched.
\<close>

definition search_message_by_quote :: "platform \<Rightarrow> message \<Rightarrow> exn + message option" where
  "search_message_by_quote p quote =
     (case re_quote_fullmatch (content quote) of
        None \<Rightarrow> Inl AttributeError
      | Some (a, c) \<Rightarrow>
          Inr (scan_messages a c (logs_from p (channel quote) log_fetch_limit quote)))"

definition create_quote_embed :: "member \<Rightarrow> message \<Rightarrow> embed" where
  "create_quote_embed quoting_user quote =
     (let footertext = ''Quoted by '' @ display_name quoting_user @ ''.'';
          footertext = (if edited_timestamp quote \<noteq> None
                        then footertext @ '' Edited.'' else footertext)
      in \<lparr> description = content quote,
           author_name = display_name (author quote),
           author_icon_url = avatar_url (author quote),
           footer_text = footertext,
           footer_icon_url = avatar_url quoting_user,
           embed_timestamp = timestamp quote \<rparr>)"

text \<open>
  What one invocation did: the calls it made on the platform, in order; the citations
  that were posted and the messages that were removed; the exception it ended with.
\<close>

record outcome =
  calls :: "call list"
  posted :: "embed list"
  deleted :: "message list"
  raised :: "exn option"

definition quote_message :: "platform \<Rightarrow> message \<Rightarrow> outcome" where
  "quote_message p quote =
     (case search_message_by_quote p quote of
        Inl e \<Rightarrow> \<lparr> calls = [], posted = [], deleted = [], raised = Some e \<rparr>
      | Inr quoted_message \<Rightarrow>
          (let fetched = [LogsFrom (channel quote) log_fetch_limit quote]
           in if server quote = None
              then \<lparr> calls = fetched, posted = [], deleted = [],
                     raised = Some AttributeError \<rparr>
              else
                (let bot_may_send = send_messages p (channel quote)
                 in case quoted_message of
                      None \<Rightarrow> \<lparr> calls = fetched, posted = [], deleted = [], raised = None \<rparr>
                    | Some found \<Rightarrow>
                        if \<not> bot_may_send
                        then \<lparr> calls = fetched, posted = [], deleted = [], raised = None \<rparr>
                        else
                          (let quote_embed = create_quote_embed (author quote) found;
                               sent = fetched @ [SendMessage (channel quote) quote_embed]
                           in case send_failure p of
                                Some e \<Rightarrow>
                                  \<lparr> calls = sent, posted = [], deleted = [],
                                    raised = Some e \<rparr>
                              | None \<Rightarrow>
                                  (let tried = sent @ [DeleteMessage quote]
                                   in case delete_failure p of
                                        None \<Rightarrow>
                                          \<lparr> calls = tried, posted = [quote_embed],
                                            deleted = [quote], raised = None \<rparr>
                                      | Some e \<Rightarrow>
                                          if e = Forbidden
                                          then \<lparr> calls = tried, posted = [quote_embed],
                                                 deleted = [], raised = None \<rparr>
                                          else \<lparr> calls = tried, posted = [quote_embed],
                                                 deleted = [], raised = Some e \<rparr>)))))"

definition on_message :: "platform \<Rightarrow> message \<Rightarrow> outcome" where
  "on_message p msg =
     (if re_quote_fullmatch (content msg) \<noteq> None
      then quote_message p msg
      else \<lparr> calls = [], posted = [], deleted = [], raised = None \<rparr>)"

section \<open>Notions the properties are stated with\<close>

text \<open>An invocation that did nothing at all.\<close>

definition idle :: outcome where
  "idle = \<lparr> calls = [], posted = [], deleted = [], raised = None \<rparr>"

text \<open>
  The fragment occurs in the text as a literal, contiguous piece, letter case
  ignored.
\<close>

definition contains_ignorecase :: "string \<Rightarrow> string \<Rightarrow> bool" where
  "contains_ignorecase frag text = sublist (map py_lower frag) (map py_lower text)"

text \<open>
  The identity matcher as the specification words it: the identifier starts with the
  hint, or the hint occurs in the full name or in the display name, case ignored.
\<close>

definition matches_spec :: "member \<Rightarrow> string \<Rightarrow> bool" where
  "matches_spec u hint =
     (prefix hint (user_id u)
      \<or> contains_ignorecase hint (name u @ ''#'' @ discriminator u)
      \<or> contains_ignorecase hint (display_name u))"

text \<open>
  The two checks of the scanner on one candidate: the author check, skipped for an
  empty author hint, and the content check.
\<close>

definition passes_checks :: "string \<Rightarrow> string \<Rightarrow> message \<Rightarrow> bool" where
  "passes_checks a c m =
     ((a = [] \<or> is_same_user (author m) a) \<and> contains_ignorecase c (content m))"

text \<open>The messages of the trigger's channel that are older than the trigger.\<close>

definition older_messages :: "platform \<Rightarrow> message \<Rightarrow> message list" where
  "older_messages p quote =
     filter (\<lambda>m. timestamp m < timestamp quote) (channel_log p (channel quote))"

text \<open>The candidates of one scan: what \<open>logs_from\<close> hands to the loop.\<close>

definition candidates :: "platform \<Rightarrow> message \<Rightarrow> message list" where
  "candidates p quote = logs_from p (channel quote) log_fetch_limit quote"

fun is_send :: "call \<Rightarrow> bool" where
  "is_send (SendMessage ch e) = True"
| "is_send other = False"

fun is_delete :: "call \<Rightarrow> bool" where
  "is_delete (DeleteMessage m) = True"
| "is_delete other = False"

text \<open>No leading and no trailing whitespace.\<close>

definition trimmed :: "string \<Rightarrow> bool" where
  "trimmed s = (s = [] \<or> (\<not> is_space (hd s) \<and> \<not> is_space (last s)))"

text \<open>The characters of a platform identifier, a number written in decimal.\<close>

definition digit_chars :: "char list" where
  "digit_chars = ''0123456789''"

definition is_digit :: "char \<Rightarrow> bool" where
  "is_digit c = (c \<in> set digit_chars)"

text \<open>
  What is left of \<open>c\<close> after its leading whitespace, or the last character of \<open>c\<close>
  when \<open>c\<close> is whitespace only.
\<close>

definition leading_fragment :: "string \<Rightarrow> string" where
  "leading_fragment c =
     (if dropWhile is_space c = [] then (if c = [] then [] else [last c])
      else dropWhile is_space c)"

text \<open>
  The body is an author segment without a newline, whitespace, \<open>>\<close>, whitespace,
  and a non-empty content segment without a newline.
\<close>

definition quote_shaped :: "string \<Rightarrow> bool" where
  "quote_shaped body =
     (\<exists>a w1 w2 c. body = a @ w1 @ [gt] @ w2 @ c \<and> newline \<notin> set a
        \<and> list_all is_space w1 \<and> list_all is_space w2 \<and> c \<noteq> [] \<and> newline \<notin> set c)"

section \<open>Sample data\<close>

definition alice :: member where
  "alice = \<lparr> user_id = ''1001'', name = ''alice_w'', discriminator = ''0042'',
             display_name = ''Alice'', avatar_url = ''a.png'' \<rparr>"

definition bob :: member where
  "bob = \<lparr> user_id = ''2002'', name = ''bobby'', discriminator = ''0007'',
           display_name = ''Bob'', avatar_url = ''b.png'' \<rparr>"

definition fishing :: message where
  "fishing = \<lparr> content = ''going fishing this weekend'', author = alice,
               channel = ''general'', server = Some ''pond'', timestamp = 5,
               edited_timestamp = None \<rparr>"

definition chatter :: message where
  "chatter = \<lparr> content = ''hello there'', author = bob,
               channel = ''general'', server = Some ''pond'', timestamp = 7,
               edited_timestamp = None \<rparr>"

definition trigger :: message where
  "trigger = \<lparr> content = ''Alice > going fishing'', author = bob,
               channel = ''general'', server = Some ''pond'', timestamp = 10,
               edited_timestamp = None \<rparr>"

definition plain :: message where
  "plain = \<lparr> content = ''going fishing'', author = bob,
             channel = ''general'', server = Some ''pond'', timestamp = 10,
             edited_timestamp = None \<rparr>"

definition multiline :: message where
  "multiline = \<lparr> content = ''Alice'' @ [CHR 0x0A] @ ''> going fishing'', author = bob,
                 channel = ''general'', server = Some ''pond'', timestamp = 10,
                 edited_timestamp = None \<rparr>"

definition pond :: platform where
  "pond = \<lparr> channel_log = (\<lambda>ch. if ch = ''general'' then [chatter, fishing] else []),
            send_messages = (\<lambda>ch. True),
            send_failure = None,
            delete_failure = None \<rparr>"

definition deep_pond :: platform where
  "deep_pond = \<lparr> channel_log = (\<lambda>ch. replicate 100 chatter @ [fishing]),
                 send_messages = (\<lambda>ch. True),
                 send_failure = None,
                 delete_failure = None \<rparr>"

definition anyone :: message where
  "anyone = \<lparr> content = ''> going fishing'', author = bob,
               channel = ''general'', server = Some ''pond'', timestamp = 10,
               edited_timestamp = None \<rparr>"

definition spaced :: message where
  "spaced = \<lparr> content = ''>   going fishing'', author = bob,
               channel = ''general'', server = Some ''pond'', timestamp = 10,
               edited_timestamp = None \<rparr>"

definition stanza :: message where
  "stanza = \<lparr> content = ''> a'' @ [CHR 0x0A] @ ''b'', author = bob,
               channel = ''general'', server = Some ''pond'', timestamp = 10,
               edited_timestamp = None \<rparr>"

definition pond_forbidden :: platform where
  "pond_forbidden = pond\<lparr>delete_failure := Some Forbidden\<rparr>"

definition pond_broken :: platform where
  "pond_broken = pond\<lparr>delete_failure := Some HTTPException\<rparr>"

definition pond_mute :: platform where
  "pond_mute = pond\<lparr>send_messages := (\<lambda>ch. False)\<rparr>"

section \<open>The quote pattern: what a match looks like\<close>

lemma gt_not_space: "\<not> is_space gt"
  by (simp add: is_space_def gt_def whitespace_chars_def)

lemma content_group_Some:
  "content_group s = Some c \<longleftrightarrow> c = s \<and> s \<noteq> [] \<and> newline \<notin> set s"
  by (auto simp: content_group_def is_dot_def list_all_iff)

lemma spaces_then_Some:
  "spaces_then k s = Some r \<Longrightarrow> \<exists>w t. s = w @ t \<and> list_all is_space w \<and> k t = Some r"
proof (induction s)
  case Nil
  then show ?case by simp
next
  case (Cons x s)
  show ?case
  proof (cases "is_space x \<and> spaces_then k s = Some r")
    case True
    with Cons.IH obtain w t where "s = w @ t" "list_all is_space w" "k t = Some r"
      by blast
    with True have "x # s = (x # w) @ t \<and> list_all is_space (x # w) \<and> k t = Some r"
      by simp
    then show ?thesis by blast
  next
    case False
    with Cons.prems have "k (x # s) = Some r"
      by (auto split: if_splits option.splits)
    then have "x # s = [] @ (x # s) \<and> list_all is_space [] \<and> k (x # s) = Some r"
      by simp
    then show ?thesis by blast
  qed
qed

lemma spaces_then_skip:
  assumes "\<And>c t. is_space c \<Longrightarrow> k (c # t) = None"
  shows "spaces_then k s = k (dropWhile is_space s)"
  using assms by (induction s) (auto split: option.splits)

lemma spaces_then_total:
  "k s = Some r \<Longrightarrow> \<exists>r'. spaces_then k s = Some r'"
  by (cases s) (auto split: option.splits)

lemma spaces_then_reach:
  assumes "list_all is_space w" and "t = [] \<or> \<not> is_space (hd t)"
  shows "k t = Some r \<Longrightarrow> spaces_then k (w @ t) = Some r"
  using assms
proof (induction w)
  case Nil
  then show ?case by (cases t) auto
next
  case (Cons x w)
  then show ?case by simp
qed

lemma separator_then_space: "is_space c \<Longrightarrow> separator_then (c # t) = None"
  using gt_not_space by (auto simp: separator_then_def)

lemma after_author_dropWhile:
  "after_author s = separator_then (dropWhile is_space s)"
  unfolding after_author_def by (rule spaces_then_skip) (rule separator_then_space)

lemma separator_then_Some:
  assumes "separator_then s = Some c"
  shows "\<exists>w. s = gt # w @ c \<and> list_all is_space w \<and> c \<noteq> [] \<and> newline \<notin> set c"
proof -
  from assms obtain t where s: "s = gt # t" and t: "spaces_then content_group t = Some c"
    by (auto simp: separator_then_def split: list.splits if_splits)
  from spaces_then_Some [OF t] obtain w u
    where "t = w @ u" "list_all is_space w" "content_group u = Some c" by blast
  with s show ?thesis by (auto simp: content_group_Some)
qed

lemma after_author_Some:
  assumes "after_author s = Some c"
  shows "\<exists>w1 w2. s = w1 @ gt # w2 @ c \<and> list_all is_space w1 \<and> list_all is_space w2
           \<and> c \<noteq> [] \<and> newline \<notin> set c"
proof -
  from assms have "separator_then (dropWhile is_space s) = Some c"
    by (simp add: after_author_dropWhile)
  from separator_then_Some [OF this] obtain w
    where d: "dropWhile is_space s = gt # w @ c" and w: "list_all is_space w"
      and c: "c \<noteq> []" "newline \<notin> set c" by blast
  have "s = takeWhile is_space s @ dropWhile is_space s" by simp
  with d have "s = takeWhile is_space s @ gt # w @ c" by simp
  moreover have "list_all is_space (takeWhile is_space s)"
    by (simp add: list_all_iff) (metis set_takeWhileD)
  ultimately show ?thesis using w c by blast
qed

lemma author_group_Some:
  "author_group acc s = Some (a, c) \<Longrightarrow>
     \<exists>u w1 w2. a = acc @ u \<and> s = u @ w1 @ gt # w2 @ c \<and> newline \<notin> set u
        \<and> list_all is_space w1 \<and> list_all is_space w2 \<and> c \<noteq> [] \<and> newline \<notin> set c"
proof (induction s arbitrary: acc)
  case Nil
  then have "after_author [] = Some c" by (auto split: option.splits)
  from after_author_Some [OF this] show ?case by simp
next
  case (Cons x s)
  show ?case
  proof (cases "after_author (x # s)")
    case (Some c')
    with Cons.prems have "a = acc" "c' = c" by auto
    with Some after_author_Some [of "x # s" c] show ?thesis
      by (metis append_Nil append_Nil2 empty_iff list.set(1))
  next
    case None
    with Cons.prems have x: "x \<noteq> newline" and r: "author_group (acc @ [x]) s = Some (a, c)"
      by (auto simp: is_dot_def split: if_splits)
    from Cons.IH [OF r] obtain u w1 w2 where
      "a = (acc @ [x]) @ u" "s = u @ w1 @ gt # w2 @ c" "newline \<notin> set u"
      "list_all is_space w1" "list_all is_space w2" "c \<noteq> []" "newline \<notin> set c" by blast
    with x have "a = acc @ (x # u) \<and> x # s = (x # u) @ w1 @ gt # w2 @ c
        \<and> newline \<notin> set (x # u)
        \<and> list_all is_space w1 \<and> list_all is_space w2 \<and> c \<noteq> [] \<and> newline \<notin> set c"
      by simp
    then show ?thesis by blast
  qed
qed

lemma re_quote_fullmatch_Some:
  assumes "re_quote_fullmatch body = Some (a, c)"
  shows "\<exists>w1 w2. body = a @ w1 @ gt # w2 @ c \<and> newline \<notin> set a
        \<and> list_all is_space w1 \<and> list_all is_space w2 \<and> c \<noteq> [] \<and> newline \<notin> set c"
  using author_group_Some [of "[]" body a c] assms
  by (auto simp: re_quote_fullmatch_def)

section \<open>Bodies without a separator\<close>

text \<open>
  C8. A message body without the character \<open>>\<close> does not parse, and the message
  handler does nothing for it: no fetch of the log, no send, no delete, no error.
\<close>

theorem no_separator_no_quote:
  assumes "gt \<notin> set (content msg)"
  shows "re_quote_fullmatch (content msg) = None \<and> on_message p msg = idle"
proof -
  have "re_quote_fullmatch (content msg) = None"
  proof (cases "re_quote_fullmatch (content msg)")
    case None
    then show ?thesis .
  next
    case (Some r)
    obtain a c where "r = (a, c)" by (cases r)
    with Some re_quote_fullmatch_Some [of "content msg" a c] assms show ?thesis by auto
  qed
  then show ?thesis by (simp add: on_message_def idle_def)
qed

theorem no_separator_no_quote_witness:
  "gt \<notin> set (content plain) \<and> re_quote_fullmatch (content plain) = None
     \<and> on_message pond plain = idle"
proof -
  have h: "gt \<notin> set (content plain)"
    by (simp add: plain_def gt_def)
  from h no_separator_no_quote [OF h, of pond] show ?thesis by simp
qed

section \<open>Escaping, searching and the identity matcher\<close>


lemma backslash_not_alphanum: "\<not> is_alphanum backslash"
  by (simp add: is_alphanum_def alphanum_chars_def backslash_def)

lemma zero_is_alphanum: "is_alphanum (CHR ''0'')"
  by (simp add: is_alphanum_def alphanum_chars_def)

lemma dot_not_alphanum: "\<not> is_alphanum (CHR ''.'')"
  by (simp add: is_alphanum_def alphanum_chars_def)

lemma plain_item_alphanum: "is_alphanum c \<Longrightarrow> plain_item c = Literal c"
  using dot_not_alphanum by (auto simp: plain_item_def)

lemma re_items_plain:
  "c \<noteq> backslash \<Longrightarrow> re_items (c # cs) = plain_item c # re_items cs"
  by (cases cs) auto

lemma re_items_null:
  "re_items (backslash # CHR ''0'' # CHR ''0'' # CHR ''0'' # cs) = Literal nul # re_items cs"
  by simp

lemma re_items_escaped:
  "\<not> is_alphanum d \<Longrightarrow> re_items (backslash # d # cs) = Literal d # re_items cs"
proof -
  assume "\<not> is_alphanum d"
  then have "d \<noteq> CHR ''0''"
    using zero_is_alphanum by auto
  then show ?thesis
    by (subst re_items.simps(3)) (simp del: re_items.simps split: list.split)
qed

lemma re_items_escape: "re_items (re_escape s) = map Literal s"
proof (induction s)
  case Nil
  then show ?case by simp
next
  case (Cons c s)
  show ?case
  proof (cases "is_alphanum c")
    case True
    then have "c \<noteq> backslash" using backslash_not_alphanum by auto
    with True Cons.IH show ?thesis
      by (simp add: re_items_plain plain_item_alphanum)
  next
    case False
    show ?thesis
    proof (cases "c = nul")
      case True
      with False Cons.IH show ?thesis by (simp del: re_items.simps add: re_items_null)
    next
      case n: False
      with False Cons.IH show ?thesis by (simp del: re_items.simps add: re_items_escaped)
    qed
  qed
qed

lemma match_here_literals:
  "match_here (map Literal ps) ts \<longleftrightarrow> prefix (map py_lower ps) (map py_lower ts)"
proof (induction ps arbitrary: ts)
  case Nil
  then show ?case by simp
next
  case (Cons p ps)
  then show ?case by (cases ts) auto
qed

lemma search_items_literals:
  "search_items (map Literal ps) ts \<longleftrightarrow> sublist (map py_lower ps) (map py_lower ts)"
  by (induction ts) (auto simp: match_here_literals sublist_Cons_right)

lemma re_search_escape:
  "re_search_ignorecase (re_escape frag) text \<longleftrightarrow> contains_ignorecase frag text"
  by (simp add: re_search_ignorecase_def re_items_escape search_items_literals
      contains_ignorecase_def)

lemma str_find_nonneg_or: "str_find s sub = - 1 \<or> 0 \<le> str_find s sub"
  by (induction s) (auto simp: Let_def)

lemma str_find_zero: "str_find s sub = 0 \<longleftrightarrow> prefix sub s"
proof (cases s)
  case Nil
  then show ?thesis by simp
next
  case (Cons c cs)
  then show ?thesis using str_find_nonneg_or [of cs sub] by (auto simp: Let_def)
qed

lemma is_same_user_iff:
  "is_same_user u hint \<longleftrightarrow>
     prefix (re_escape hint) (user_id u)
     \<or> contains_ignorecase hint (name u @ ''#'' @ discriminator u)
     \<or> contains_ignorecase hint (display_name u)"
  by (simp add: is_same_user_def Let_def str_find_zero re_search_escape)

lemma re_escape_alphanum: "list_all is_alphanum s \<Longrightarrow> re_escape s = s"
  by (induction s) auto

lemma re_escape_alphanum_only:
  "list_all is_alphanum (re_escape s) \<Longrightarrow> list_all is_alphanum s"
  using backslash_not_alphanum by (induction s) (auto split: if_splits)

lemma prefix_escape_alphanum:
  assumes "list_all is_alphanum ident"
  shows "prefix (re_escape hint) ident \<longleftrightarrow> prefix hint ident"
proof
  assume p: "prefix (re_escape hint) ident"
  then have "list_all is_alphanum (re_escape hint)"
    using assms by (auto simp: prefix_def)
  then have "list_all is_alphanum hint"
    by (rule re_escape_alphanum_only)
  then have "re_escape hint = hint"
    by (rule re_escape_alphanum)
  with p show "prefix hint ident" by simp
next
  assume p: "prefix hint ident"
  then have "list_all is_alphanum hint"
    using assms by (auto simp: prefix_def)
  then have "re_escape hint = hint" by (rule re_escape_alphanum)
  with p show "prefix (re_escape hint) ident" by simp
qed

lemma digit_alphanum: "is_digit c \<Longrightarrow> is_alphanum c"
  by (auto simp: is_digit_def digit_chars_def is_alphanum_def alphanum_chars_def)

lemma digits_alphanum: "list_all is_digit s \<Longrightarrow> list_all is_alphanum s"
  by (auto simp: list_all_iff digit_alphanum)

text \<open>
  C4. For every member (the identifier is the platform's: a number written in decimal
  digits) and every hint, the identity matcher answers true exactly when the
  identifier starts with the hint (anchored, case matters), or the hint occurs, case
  ignored, in the full name (name, \<open>#\<close>, discriminator), or the hint occurs, case
  ignored, in the display name. The hint is literal text: \<open>a.ice\<close> does not match
  \<open>Alice\<close>, which the same text read as a pattern does.
\<close>

theorem identity_matcher:
  assumes "list_all is_digit (user_id u)"
  shows "is_same_user u hint \<longleftrightarrow> matches_spec u hint"
  using digits_alphanum [OF assms]
  by (simp add: is_same_user_iff matches_spec_def prefix_escape_alphanum)

theorem identity_matcher_witness:
  "list_all is_digit (user_id alice)
     \<and> is_same_user alice ''100'' \<and> matches_spec alice ''100''
     \<and> \<not> is_same_user alice ''001'' \<and> \<not> matches_spec alice ''001''
     \<and> is_same_user alice ''W#00'' \<and> matches_spec alice ''W#00''
     \<and> is_same_user alice ''ALI'' \<and> matches_spec alice ''ALI''
     \<and> \<not> is_same_user alice ''a.ice'' \<and> \<not> matches_spec alice ''a.ice''
     \<and> re_search_ignorecase ''a.ice'' (display_name alice)"
proof -
  have h: "list_all is_digit (user_id alice)"
    by (simp add: alice_def is_digit_def digit_chars_def)
  have m: "matches_spec alice ''100''" "\<not> matches_spec alice ''001''"
    "matches_spec alice ''W#00''" "matches_spec alice ''ALI''"
    "\<not> matches_spec alice ''a.ice''"
    by code_simp+
  have w: "re_search_ignorecase ''a.ice'' (display_name alice)"
    by code_simp
  from h m w identity_matcher [OF h, of "''100''"] identity_matcher [OF h, of "''001''"]
    identity_matcher [OF h, of "''W#00''"] identity_matcher [OF h, of "''ALI''"]
    identity_matcher [OF h, of "''a.ice''"]
  show ?thesis by simp
qed

section \<open>The quote pattern: which bodies parse, and into what\<close>


lemma newline_is_space: "is_space newline"
  by (simp add: is_space_def newline_def whitespace_chars_def)

lemma space_is_space: "is_space (CHR '' '')"
  by (simp add: is_space_def whitespace_chars_def)

lemma space_not_newline: "CHR '' '' \<noteq> newline"
  by (simp add: newline_def)

lemma after_author_other:
  "\<not> is_space x \<Longrightarrow> x \<noteq> gt \<Longrightarrow> after_author (x # s) = None"
  by (simp add: after_author_def separator_then_def)

lemma after_author_space:
  "is_space x \<Longrightarrow> after_author (x # s) = after_author s"
  by (simp add: after_author_dropWhile)

lemma after_author_gt:
  "after_author (gt # s) = spaces_then content_group s"
  using gt_not_space by (simp add: after_author_def separator_then_def)

lemma after_author_inside:
  assumes "u \<noteq> []" "\<not> is_space (last u)" "gt \<notin> set u"
  shows "after_author (u @ rest) = None"
  using assms
proof (induction u)
  case Nil
  then show ?case by simp
next
  case (Cons x u)
  show ?case
  proof (cases "is_space x")
    case True
    with Cons.prems have "u \<noteq> []" by auto
    with Cons True show ?thesis by (simp add: after_author_space)
  next
    case False
    moreover from Cons.prems have "x \<noteq> gt" by auto
    ultimately show ?thesis by (simp add: after_author_other)
  qed
qed

lemma author_group_literal:
  assumes "u = [] \<or> \<not> is_space (last u)" "gt \<notin> set u" "newline \<notin> set u"
    and "after_author rest = Some c"
  shows "author_group acc (u @ rest) = Some (acc @ u, c)"
  using assms
proof (induction u arbitrary: acc)
  case Nil
  then show ?case by (cases rest) auto
next
  case (Cons x u)
  from Cons.prems have "after_author ((x # u) @ rest) = None"
    by (intro after_author_inside) auto
  moreover from Cons.prems have "is_dot x" by (auto simp: is_dot_def)
  moreover from Cons.prems have "author_group (acc @ [x]) (u @ rest) = Some ((acc @ [x]) @ u, c)"
    by (intro Cons.IH) (auto split: if_splits)
  ultimately show ?case by simp
qed

lemma spaces_then_content:
  assumes "c \<noteq> []" "newline \<notin> set c" "\<not> is_space (hd c)" "list_all is_space w"
  shows "spaces_then content_group (w @ c) = Some c"
  using assms by (intro spaces_then_reach) (auto simp: content_group_Some)

lemma author_group_immediate:
  assumes "author_group acc s = Some (acc, c)"
  shows "after_author s = Some c"
proof (cases "after_author s")
  case (Some c')
  with assms show ?thesis by (cases s) auto
next
  case None
  with assms obtain x xs where s: "s = x # xs"
    and r: "author_group (acc @ [x]) xs = Some (acc, c)"
    by (cases s) (auto split: if_splits)
  from author_group_Some [OF r] show ?thesis by auto
qed

lemma author_group_no_trailing_space:
  "author_group acc s = Some (a, c) \<Longrightarrow> a = acc \<or> (a \<noteq> [] \<and> \<not> is_space (last a))"
proof (induction s arbitrary: acc)
  case Nil
  then show ?case by (auto split: option.splits)
next
  case (Cons x s)
  show ?case
  proof (cases "after_author (x # s)")
    case (Some c')
    with Cons.prems show ?thesis by auto
  next
    case None
    with Cons.prems have r: "author_group (acc @ [x]) s = Some (a, c)"
      by (auto split: if_splits)
    from Cons.IH [OF r] show ?thesis
    proof
      assume a: "a = acc @ [x]"
      with r have "after_author s = Some c" by (auto intro: author_group_immediate)
      with None have "\<not> is_space x" by (auto simp: after_author_space)
      with a show ?thesis by simp
    next
      assume "a \<noteq> [] \<and> \<not> is_space (last a)"
      then show ?thesis by simp
    qed
  qed
qed

text \<open>
  C3, as amended. For every non-empty trimmed string \<open>a\<close> without \<open>>\<close> and without a
  newline, and every non-empty string \<open>c\<close> without a newline that does not start with
  whitespace, parsing \<open>a\<close>, the separator \<open> > \<close> and \<open>c\<close> put together gives the
  author hint \<open>a\<close> and the content fragment \<open>c\<close>.
\<close>

theorem parse_roundtrip:
  assumes "a \<noteq> []" and "trimmed a" and "gt \<notin> set a" and "newline \<notin> set a"
    and "c \<noteq> []" and "newline \<notin> set c" and "\<not> is_space (hd c)"
  shows "re_quote_fullmatch (a @ '' > '' @ c) = Some (a, c)"
proof -
  have "after_author ('' > '' @ c) = after_author (gt # CHR '' '' # c)"
    using space_is_space by (simp add: after_author_space gt_def)
  also have "\<dots> = spaces_then content_group ([CHR '' ''] @ c)"
    by (simp add: after_author_gt)
  also have "\<dots> = Some c"
    using assms space_is_space by (intro spaces_then_content) auto
  finally have rest: "after_author ('' > '' @ c) = Some c" .
  from assms have "\<not> is_space (last a)" by (simp add: trimmed_def)
  with assms rest have "author_group [] (a @ '' > '' @ c) = Some ([] @ a, c)"
    by (intro author_group_literal) auto
  then show ?thesis by (simp add: re_quote_fullmatch_def)
qed

theorem parse_roundtrip_witness:
  "''Alice'' \<noteq> [] \<and> trimmed ''Alice'' \<and> gt \<notin> set ''Alice'' \<and> newline \<notin> set ''Alice''
   \<and> ''going fishing'' \<noteq> [] \<and> newline \<notin> set ''going fishing''
   \<and> \<not> is_space (hd ''going fishing'')
   \<and> re_quote_fullmatch (''Alice'' @ '' > '' @ ''going fishing'')
       = Some (''Alice'', ''going fishing'')"
proof -
  have h1: "''Alice'' \<noteq> []" by simp
  have h2: "trimmed ''Alice''"
    by (simp add: trimmed_def is_space_def whitespace_chars_def)
  have h3: "gt \<notin> set ''Alice''" by (simp add: gt_def)
  have h4: "newline \<notin> set ''Alice''" by (simp add: newline_def)
  have h5: "''going fishing'' \<noteq> []" by simp
  have h6: "newline \<notin> set ''going fishing''" by (simp add: newline_def)
  have h7: "\<not> is_space (hd ''going fishing'')"
    by (simp add: is_space_def whitespace_chars_def)
  from parse_roundtrip [OF h1 h2 h3 h4 h5 h6 h7] h1 h2 h3 h4 h5 h6 h7
  show ?thesis by blast
qed

text \<open>
  The claim as written fails for a content that starts with whitespace, which the
  pattern gives to the separator, and for an author that contains \<open>>\<close>, where the
  pattern splits at the first one.
\<close>

theorem parse_roundtrip_counterexample:
  "''a'' \<noteq> [] \<and> trimmed ''a'' \<and> '' x'' \<noteq> []
   \<and> re_quote_fullmatch (''a'' @ '' > '' @ '' x'') = Some (''a'', ''x'')
   \<and> ''x>y'' \<noteq> [] \<and> trimmed ''x>y'' \<and> ''c'' \<noteq> []
   \<and> re_quote_fullmatch (''x>y'' @ '' > '' @ ''c'') = Some (''x'', ''y > c'')"
  by code_simp

lemma leading_fragment_Nil: "leading_fragment [] = []"
  by (simp add: leading_fragment_def)

lemma leading_fragment_nonspace:
  "\<not> is_space x \<Longrightarrow> leading_fragment (x # t) = x # t"
  by (simp add: leading_fragment_def)

lemma leading_fragment_alt:
  "leading_fragment t =
     (if dropWhile is_space t = [] then (if t = [] then [] else [last t])
      else dropWhile is_space t)"
  by (simp add: leading_fragment_def)

lemma content_group_None_iff:
  "content_group s = None \<longleftrightarrow> s = [] \<or> newline \<in> set s"
  by (auto simp: content_group_def is_dot_def list_all_iff)

lemma content_group_eq: "content_group s = Some s \<longleftrightarrow> s \<noteq> [] \<and> newline \<notin> set s"
  by (auto simp: content_group_Some)

lemma spaces_then_content_exact:
  "spaces_then content_group t = content_group (leading_fragment t)"
proof (induction t)
  case Nil
  then show ?case by (simp add: leading_fragment_Nil)
next
  case (Cons x t)
  show ?case
  proof (cases "is_space x")
    case False
    then show ?thesis by (simp add: leading_fragment_nonspace)
  next
    case sp: True
    show ?thesis
    proof (cases "dropWhile is_space t = []")
      case False
      then have lf: "leading_fragment t = dropWhile is_space t"
        "leading_fragment (x # t) = dropWhile is_space t"
        using sp by (simp_all add: leading_fragment_alt del: dropWhile_eq_Nil_conv)
      show ?thesis
      proof (cases "content_group (dropWhile is_space t)")
        case (Some r)
        with sp lf Cons.IH show ?thesis by simp
      next
        case None
        with False have "newline \<in> set (dropWhile is_space t)"
          by (simp add: content_group_None_iff del: dropWhile_eq_Nil_conv)
        then have "newline \<in> set (x # t)"
          by (auto dest: set_dropWhileD)
        then have "content_group (x # t) = None"
          by (simp add: content_group_None_iff)
        with None sp lf Cons.IH show ?thesis by simp
      qed
    next
      case True
      show ?thesis
      proof (cases "t = []")
        case t: True
        with sp show ?thesis
          by (simp add: leading_fragment_alt content_group_def)
      next
        case t: False
        with True sp have lf: "leading_fragment t = [last t]"
          "leading_fragment (x # t) = [last t]"
          by (simp_all add: leading_fragment_alt del: dropWhile_eq_Nil_conv)
        show ?thesis
        proof (cases "last t = newline")
          case nl: True
          with t have "newline \<in> set (x # t)"
            by (metis last_in_set list.set_intros(2))
          then have "content_group (x # t) = None"
            by (simp add: content_group_None_iff)
          moreover from nl have "content_group [last t] = None"
            by (simp add: content_group_None_iff)
          ultimately show ?thesis using sp lf Cons.IH by simp
        next
          case nl: False
          then have "content_group [last t] = Some [last t]"
            by (simp add: content_group_eq)
          with sp lf Cons.IH show ?thesis by simp
        qed
      qed
    qed
  qed
qed

lemma leading_fragment_shape:
  "leading_fragment t \<noteq> [] \<Longrightarrow>
     \<not> is_space (hd (leading_fragment t)) \<or> length (leading_fragment t) = 1"
  by (auto simp: leading_fragment_alt hd_dropWhile simp del: dropWhile_eq_Nil_conv
      split: if_splits)

lemma after_author_fragment:
  assumes "after_author s = Some c"
  shows "\<exists>t. c = leading_fragment t"
proof -
  from assms have "separator_then (dropWhile is_space s) = Some c"
    by (simp add: after_author_dropWhile)
  then obtain t where "spaces_then content_group t = Some c"
    by (auto simp: separator_then_def split: list.splits if_splits)
  then have "content_group (leading_fragment t) = Some c"
    by (simp add: spaces_then_content_exact)
  then show ?thesis by (auto simp: content_group_Some)
qed

lemma author_group_fragment:
  "author_group acc s = Some (a, c) \<Longrightarrow> \<exists>t. c = leading_fragment t"
proof (induction s arbitrary: acc)
  case Nil
  then show ?case by (auto split: option.splits dest: after_author_fragment)
next
  case (Cons x s)
  show ?case
  proof (cases "after_author (x # s)")
    case (Some c')
    with Cons.prems have "c' = c" by auto
    with Some show ?thesis by (auto dest: after_author_fragment)
  next
    case None
    with Cons.prems have "author_group (acc @ [x]) s = Some (a, c)"
      by (auto split: if_splits)
    then show ?thesis by (rule Cons.IH)
  qed
qed

text \<open>
  C5, as amended. Whenever a body parses, the content fragment is non-empty and starts
  with a character that is not whitespace, unless it is one single whitespace
  character; the author hint, when it is present (non-empty), does not end with
  whitespace. Whitespace at the start of the body stays in the author hint.
\<close>

theorem parsed_pattern_shape:
  assumes "re_quote_fullmatch body = Some (a, c)"
  shows "c \<noteq> [] \<and> (\<not> is_space (hd c) \<or> length c = 1)
     \<and> (a \<noteq> [] \<longrightarrow> \<not> is_space (last a))"
proof -
  from re_quote_fullmatch_Some [OF assms] have c: "c \<noteq> []" by blast
  from assms obtain t where "c = leading_fragment t"
    by (auto simp: re_quote_fullmatch_def dest: author_group_fragment)
  with c have "\<not> is_space (hd c) \<or> length c = 1"
    using leading_fragment_shape [of t] by simp
  moreover from assms author_group_no_trailing_space [of "[]" body a c]
  have "a \<noteq> [] \<longrightarrow> \<not> is_space (last a)" by (auto simp: re_quote_fullmatch_def)
  ultimately show ?thesis using c by simp
qed

theorem parsed_pattern_shape_witness:
  "re_quote_fullmatch ''Alice > going fishing'' = Some (''Alice'', ''going fishing'')
   \<and> ''going fishing'' \<noteq> [] \<and> \<not> is_space (hd ''going fishing'')
   \<and> ''Alice'' \<noteq> [] \<and> \<not> is_space (last ''Alice'')"
proof -
  have h: "re_quote_fullmatch ''Alice > going fishing'' = Some (''Alice'', ''going fishing'')"
    by code_simp
  from h parsed_pattern_shape [OF h] show ?thesis by simp
qed

text \<open>
  The claim as written fails: the body \<open>>\<close> followed by two spaces parses with a
  content fragment of one space, and a body with a leading space keeps it in the
  author hint.
\<close>

theorem parsed_pattern_shape_counterexample:
  "re_quote_fullmatch ''>  '' = Some ('''', '' '') \<and> list_all is_space '' ''
   \<and> re_quote_fullmatch '' a > b'' = Some ('' a'', ''b'') \<and> is_space (hd '' a'')"
  by code_simp

lemma spaces_then_through:
  assumes "list_all is_space w" and "k t = Some r"
  shows "\<exists>r'. spaces_then k (w @ t) = Some r'"
  using assms
proof (induction w)
  case Nil
  then show ?case by (simp add: spaces_then_total)
next
  case (Cons x w)
  then obtain r' where "spaces_then k (w @ t) = Some r'" by auto
  with Cons.prems show ?case by simp
qed

lemma after_author_shaped:
  assumes "list_all is_space w1" and "list_all is_space w2"
    and "c \<noteq> []" and "newline \<notin> set c"
  shows "\<exists>f. after_author (w1 @ [gt] @ w2 @ c) = Some f"
proof -
  from assms(1) have "dropWhile is_space (w1 @ [gt] @ w2 @ c) = gt # w2 @ c"
    using gt_not_space by (simp add: list_all_iff dropWhile_append2)
  then have "after_author (w1 @ [gt] @ w2 @ c) = spaces_then content_group (w2 @ c)"
    by (simp add: after_author_dropWhile separator_then_def)
  moreover from assms(3,4) have "content_group c = Some c"
    by (simp add: content_group_Some)
  ultimately show ?thesis
    using spaces_then_through [OF assms(2), of content_group c c] by simp
qed

lemma author_group_total:
  assumes "newline \<notin> set a" and "after_author rest = Some f"
  shows "\<exists>r. author_group acc (a @ rest) = Some r"
  using assms
proof (induction a arbitrary: acc)
  case Nil
  then show ?case by (cases rest) auto
next
  case (Cons x a)
  show ?case
  proof (cases "after_author ((x # a) @ rest)")
    case (Some c)
    then show ?thesis by simp
  next
    case None
    from Cons.prems have "is_dot x" by (auto simp: is_dot_def)
    moreover from Cons.prems
    obtain r where "author_group (acc @ [x]) (a @ rest) = Some r"
      using Cons.IH [of "acc @ [x]"] by auto
    ultimately show ?thesis using None by simp
  qed
qed

lemma quote_shaped_parses:
  "re_quote_fullmatch body \<noteq> None \<longleftrightarrow> quote_shaped body"
proof
  assume "re_quote_fullmatch body \<noteq> None"
  then obtain a c where "re_quote_fullmatch body = Some (a, c)" by auto
  from re_quote_fullmatch_Some [OF this] show "quote_shaped body"
    unfolding quote_shaped_def by auto
next
  assume "quote_shaped body"
  then obtain a w1 w2 c where b: "body = a @ w1 @ [gt] @ w2 @ c" "newline \<notin> set a"
    "list_all is_space w1" "list_all is_space w2" "c \<noteq> []" "newline \<notin> set c"
    unfolding quote_shaped_def by blast
  from after_author_shaped [OF b(3-6)] obtain f
    where "after_author (w1 @ [gt] @ w2 @ c) = Some f" by blast
  from author_group_total [OF b(2) this, of "[]"] b(1)
  show "re_quote_fullmatch body \<noteq> None"
    by (auto simp: re_quote_fullmatch_def)
qed

text \<open>
  C9, as amended. A body parses exactly when it is an author segment without a
  newline, whitespace, \<open>>\<close>, whitespace, and a non-empty content segment without a
  newline. When it parses, neither the author hint nor the content fragment contains
  a newline: a newline of a quote trigger lies in the whitespace next to the
  separator. Every other body, and so every multi-line message with a newline
  elsewhere, is no quote trigger, and the message handler does nothing for it.
\<close>

theorem newline_only_around_separator:
  "(re_quote_fullmatch (content msg) \<noteq> None \<longleftrightarrow> quote_shaped (content msg))
   \<and> (\<forall>a c. re_quote_fullmatch (content msg) = Some (a, c) \<longrightarrow>
         newline \<notin> set a \<and> newline \<notin> set c
         \<and> (\<exists>w1 w2. content msg = a @ w1 @ [gt] @ w2 @ c
               \<and> list_all is_space w1 \<and> list_all is_space w2))
   \<and> (\<not> quote_shaped (content msg) \<longrightarrow>
         re_quote_fullmatch (content msg) = None \<and> on_message p msg = idle)
   \<and> (quote_shaped (content msg) \<longrightarrow> on_message p msg = quote_message p msg)"
proof -
  have 1: "re_quote_fullmatch (content msg) \<noteq> None \<longleftrightarrow> quote_shaped (content msg)"
    by (rule quote_shaped_parses)
  have 2: "newline \<notin> set a \<and> newline \<notin> set c
         \<and> (\<exists>w1 w2. content msg = a @ w1 @ [gt] @ w2 @ c
               \<and> list_all is_space w1 \<and> list_all is_space w2)"
    if "re_quote_fullmatch (content msg) = Some (a, c)" for a c
    using re_quote_fullmatch_Some [OF that] by auto
  have 3: "re_quote_fullmatch (content msg) = None \<and> on_message p msg = idle"
    if "\<not> quote_shaped (content msg)"
  proof -
    from that 1 have "re_quote_fullmatch (content msg) = None" by blast
    then show ?thesis by (simp add: on_message_def idle_def)
  qed
  have 4: "on_message p msg = quote_message p msg" if "quote_shaped (content msg)"
  proof -
    from that 1 have "re_quote_fullmatch (content msg) \<noteq> None" by blast
    then show ?thesis by (simp add: on_message_def)
  qed
  from 1 2 3 4 show ?thesis by blast
qed

theorem newline_only_around_separator_witness:
  "newline \<in> set (content multiline) \<and> quote_shaped (content multiline)
   \<and> re_quote_fullmatch (content multiline) = Some (''Alice'', ''going fishing'')
   \<and> newline \<notin> set ''Alice'' \<and> newline \<notin> set ''going fishing''
   \<and> on_message pond multiline = quote_message pond multiline
   \<and> newline \<in> set (content stanza) \<and> \<not> quote_shaped (content stanza)
   \<and> re_quote_fullmatch (content stanza) = None
   \<and> on_message pond stanza = idle"
proof -
  have m: "re_quote_fullmatch (content multiline) = Some (''Alice'', ''going fishing'')"
    by code_simp
  have s: "re_quote_fullmatch (content stanza) = None"
    by code_simp
  have n: "newline \<in> set (content multiline)" "newline \<in> set (content stanza)"
    by (simp_all add: multiline_def stanza_def newline_def)
  note t1 = newline_only_around_separator [of multiline pond]
  note t2 = newline_only_around_separator [of stanza pond]
  from t1 m have q1: "quote_shaped (content multiline)" by simp
  from t2 s have q2: "\<not> quote_shaped (content stanza)" by simp
  from t1 m q1 have a: "newline \<notin> set ''Alice'' \<and> newline \<notin> set ''going fishing''
    \<and> on_message pond multiline = quote_message pond multiline" by blast
  from t2 q2 have b: "on_message pond stanza = idle" by blast
  from m s n q1 q2 a b show ?thesis by simp
qed

text \<open>
  The claim as written fails: a body with a line break between the author and the
  separator parses, and the handler acts on it.
\<close>

theorem multiline_counterexample:
  "newline \<in> set (content multiline)
   \<and> re_quote_fullmatch (content multiline) = Some (''Alice'', ''going fishing'')
   \<and> on_message pond multiline \<noteq> idle"
  by code_simp

section \<open>The history scanner\<close>

lemma scan_messages_find:
  "scan_messages a c ms = find (passes_checks a c) ms"
  by (induction ms) (auto simp: passes_checks_def re_search_escape)

lemma search_parsed:
  assumes "re_quote_fullmatch (content quote) = Some (a, c)"
  shows "search_message_by_quote p quote = Inr (find (passes_checks a c) (candidates p quote))"
  using assms by (simp add: search_message_by_quote_def candidates_def scan_messages_find)

lemma candidates_older:
  "candidates p quote = take log_fetch_limit (older_messages p quote)"
  by (simp add: candidates_def logs_from_def older_messages_def)

lemma candidates_before:
  "m \<in> set (candidates p quote) \<Longrightarrow> timestamp m < timestamp quote"
  by (auto simp: candidates_older older_messages_def dest: in_set_takeD)

lemma candidates_sorted:
  assumes "sorted_wrt (\<lambda>x y. timestamp y \<le> timestamp x) (channel_log p (channel quote))"
  shows "sorted_wrt (\<lambda>x y. timestamp y \<le> timestamp x) (candidates p quote)"
  using assms
  by (simp add: candidates_older older_messages_def sorted_wrt_filter sorted_wrt_take)

lemma find_first_of_sorted:
  assumes "sorted_wrt R xs" and "find P xs = Some x" and "y \<in> set xs" and "P y"
  shows "y = x \<or> R x y"
proof -
  from assms(2) obtain i where i: "i < length xs" "x = xs ! i" "\<forall>j<i. \<not> P (xs ! j)"
    by (auto simp: find_Some_iff)
  from assms(3) obtain j where j: "j < length xs" "y = xs ! j"
    by (auto simp: in_set_conv_nth)
  with i assms(4) have "i \<le> j" by (metis not_le_imp_less)
  show ?thesis
  proof (cases "i = j")
    case True
    with i j show ?thesis by simp
  next
    case False
    with \<open>i \<le> j\<close> have "i < j" by simp
    with assms(1) j i have "R x y" by (simp add: sorted_wrt_nth_less)
    then show ?thesis ..
  qed
qed

lemma trigger_parse:
  "re_quote_fullmatch (content trigger) = Some (''Alice'', ''going fishing'')"
  by code_simp

lemma pond_sorted:
  "sorted_wrt (\<lambda>x y. timestamp y \<le> timestamp x) (channel_log pond (channel trigger))"
  by (simp add: pond_def trigger_def chatter_def fishing_def)

lemma pond_find:
  "find (passes_checks ''Alice'' ''going fishing'') (candidates pond trigger) = Some fishing"
  by code_simp

lemma deep_older:
  "older_messages deep_pond trigger = replicate 100 chatter @ [fishing]"
  by (simp add: older_messages_def deep_pond_def trigger_def chatter_def fishing_def)

lemma chatter_fails: "\<not> passes_checks ''Alice'' ''going fishing'' chatter"
  by code_simp

lemma fishing_passes: "passes_checks ''Alice'' ''going fishing'' fishing"
  by code_simp

lemma deep_beyond:
  "\<forall>i < length (older_messages deep_pond trigger).
     passes_checks ''Alice'' ''going fishing'' (older_messages deep_pond trigger ! i)
       \<longrightarrow> log_fetch_limit \<le> i"
proof (intro allI impI)
  fix i
  assume "i < length (older_messages deep_pond trigger)"
    and p: "passes_checks ''Alice'' ''going fishing'' (older_messages deep_pond trigger ! i)"
  show "log_fetch_limit \<le> i"
  proof (rule ccontr)
    assume "\<not> log_fetch_limit \<le> i"
    then have "i < 100" by (simp add: log_fetch_limit_def)
    then have "older_messages deep_pond trigger ! i = chatter"
      by (simp add: deep_older nth_append)
    with p chatter_fails show False by simp
  qed
qed

text \<open>
  C1. Let the channel log be ordered most recent first, and let the trigger's body
  parse into the author hint \<open>a\<close> and the content fragment \<open>c\<close>. The candidates of the
  scan are the fetched messages, all older than the trigger. The scanner returns the
  first candidate, in that order, that passes both checks (the author check is
  skipped for an empty hint; the body must contain the fragment literally, case
  ignored). A returned message is a candidate that passes, is older than the trigger,
  and no passing candidate has a greater timestamp. It returns nothing exactly when no
  candidate passes.
\<close>

theorem scan_returns_most_recent:
  assumes "re_quote_fullmatch (content quote) = Some (a, c)"
    and "sorted_wrt (\<lambda>x y. timestamp y \<le> timestamp x) (channel_log p (channel quote))"
  shows "search_message_by_quote p quote = Inr (find (passes_checks a c) (candidates p quote))
    \<and> (\<forall>m. search_message_by_quote p quote = Inr (Some m) \<longrightarrow>
          m \<in> set (candidates p quote) \<and> passes_checks a c m
          \<and> timestamp m < timestamp quote
          \<and> (\<forall>m' \<in> set (candidates p quote).
                passes_checks a c m' \<longrightarrow> timestamp m' \<le> timestamp m))
    \<and> (search_message_by_quote p quote = Inr None \<longleftrightarrow>
          (\<forall>m \<in> set (candidates p quote). \<not> passes_checks a c m))"
proof -
  let ?cs = "candidates p quote"
  have s: "search_message_by_quote p quote = Inr (find (passes_checks a c) ?cs)"
    using assms(1) by (rule search_parsed)
  have found: "m \<in> set ?cs \<and> passes_checks a c m \<and> timestamp m < timestamp quote
      \<and> (\<forall>m' \<in> set ?cs. passes_checks a c m' \<longrightarrow> timestamp m' \<le> timestamp m)"
    if f: "find (passes_checks a c) ?cs = Some m" for m
  proof -
    from f have m: "m \<in> set ?cs" "passes_checks a c m"
      by (auto simp: find_Some_iff)
    have "timestamp m' \<le> timestamp m" if "m' \<in> set ?cs" "passes_checks a c m'" for m'
      using find_first_of_sorted [OF candidates_sorted [OF assms(2)] f that] by auto
    with m candidates_before [OF m(1)] show ?thesis by blast
  qed
  have none: "find (passes_checks a c) ?cs = None \<longleftrightarrow> (\<forall>m \<in> set ?cs. \<not> passes_checks a c m)"
    by (auto simp: find_None_iff)
  from s found none show ?thesis by simp
qed

theorem scan_returns_most_recent_witness:
  "re_quote_fullmatch (content trigger) = Some (''Alice'', ''going fishing'')
   \<and> sorted_wrt (\<lambda>x y. timestamp y \<le> timestamp x) (channel_log pond (channel trigger))
   \<and> search_message_by_quote pond trigger = Inr (Some fishing)
   \<and> fishing \<in> set (candidates pond trigger)
   \<and> passes_checks ''Alice'' ''going fishing'' fishing
   \<and> timestamp fishing < timestamp trigger"
proof -
  note t = scan_returns_most_recent [OF trigger_parse pond_sorted]
  from t pond_find have s: "search_message_by_quote pond trigger = Inr (Some fishing)"
    by simp
  with t have "fishing \<in> set (candidates pond trigger)
     \<and> passes_checks ''Alice'' ''going fishing'' fishing
     \<and> timestamp fishing < timestamp trigger" by blast
  with s trigger_parse pond_sorted show ?thesis by simp
qed

text \<open>
  C6. The window is exactly 100 messages. When the trigger's body parses and every
  older message of the channel that passes both checks lies at index 100 or deeper
  (position 101 or deeper, counted from the trigger), the scanner returns nothing,
  which is also what it returns on an empty channel.
\<close>

theorem window_cutoff:
  assumes "re_quote_fullmatch (content quote) = Some (a, c)"
    and "\<forall>i < length (older_messages p quote).
           passes_checks a c (older_messages p quote ! i) \<longrightarrow> log_fetch_limit \<le> i"
  shows "log_fetch_limit = 100
    \<and> candidates p quote = take 100 (older_messages p quote)
    \<and> search_message_by_quote p quote = Inr None
    \<and> search_message_by_quote p quote
        = search_message_by_quote (p\<lparr>channel_log := \<lambda>ch. []\<rparr>) quote"
proof -
  have "\<not> passes_checks a c m" if "m \<in> set (candidates p quote)" for m
  proof -
    from that obtain i where "i < length (older_messages p quote)" "i < log_fetch_limit"
      "m = older_messages p quote ! i"
      by (auto simp: candidates_older in_set_conv_nth)
    with assms(2) show ?thesis by auto
  qed
  then have "find (passes_checks a c) (candidates p quote) = None"
    by (auto simp: find_None_iff)
  with assms(1) have 1: "search_message_by_quote p quote = Inr None"
    by (simp add: search_parsed)
  have "search_message_by_quote (p\<lparr>channel_log := \<lambda>ch. []\<rparr>) quote = Inr None"
    using assms(1) by (simp add: search_parsed candidates_def logs_from_def)
  with 1 show ?thesis by (simp add: log_fetch_limit_def candidates_older)
qed

theorem window_cutoff_witness:
  "re_quote_fullmatch (content trigger) = Some (''Alice'', ''going fishing'')
   \<and> passes_checks ''Alice'' ''going fishing'' (older_messages deep_pond trigger ! 100)
   \<and> length (older_messages deep_pond trigger) = 101
   \<and> search_message_by_quote deep_pond trigger = Inr None"
proof -
  have "older_messages deep_pond trigger ! 100 = fishing"
    by (simp add: deep_older nth_append)
  with fishing_passes window_cutoff [OF trigger_parse deep_beyond] trigger_parse
  show ?thesis by (simp add: deep_older)
qed

lemma leading_fragment_after_space:
  "c \<noteq> [] \<Longrightarrow> is_space x \<Longrightarrow> leading_fragment (x # c) = leading_fragment c"
  by (simp add: leading_fragment_alt del: dropWhile_eq_Nil_conv)

lemma leading_fragment_nonempty: "c \<noteq> [] \<Longrightarrow> leading_fragment c \<noteq> []"
  by (simp add: leading_fragment_alt del: dropWhile_eq_Nil_conv)

lemma after_author_leading:
  assumes "c \<noteq> []"
  shows "after_author (''> '' @ c) = content_group (leading_fragment c)"
proof -
  have "after_author (''> '' @ c) = spaces_then content_group (CHR '' '' # c)"
    using after_author_gt [of "CHR '' '' # c"] by (simp add: gt_def)
  also have "\<dots> = content_group (leading_fragment (CHR '' '' # c))"
    by (rule spaces_then_content_exact)
  also have "\<dots> = content_group (leading_fragment c)"
    using assms space_is_space by (simp add: leading_fragment_after_space)
  finally show ?thesis .
qed

lemma author_group_later:
  assumes "after_author (x # s) = None" and "author_group [] (x # s) = Some (a, f)"
  shows "a \<noteq> []"
proof -
  from assms have "author_group [x] s = Some (a, f)"
    by (auto split: if_splits)
  from author_group_Some [OF this] show ?thesis by auto
qed

text \<open>
  C10, as amended. Take a body made of \<open>>\<close>, a space and a non-empty \<open>c\<close>, and let the
  fragment be \<open>c\<close> without its leading whitespace, or the last character of \<open>c\<close> when
  \<open>c\<close> is whitespace only. When the fragment contains no newline, parsing succeeds
  with an empty author hint and with that fragment as the content fragment, and the
  scanner does not look at authors: it returns the first candidate whose body
  contains the fragment, case ignored. When the fragment contains a newline, parsing
  does not give an empty author hint.
\<close>

theorem leading_separator_any_author:
  assumes "c \<noteq> []" and "content quote = ''> '' @ c"
  shows "(newline \<notin> set (leading_fragment c) \<longrightarrow>
            re_quote_fullmatch (content quote) = Some ([], leading_fragment c)
            \<and> leading_fragment c \<noteq> []
            \<and> search_message_by_quote p quote
                = Inr (find (\<lambda>m. contains_ignorecase (leading_fragment c) (content m))
                         (candidates p quote)))
     \<and> (newline \<in> set (leading_fragment c) \<longrightarrow>
            (\<forall>f. re_quote_fullmatch (content quote) \<noteq> Some ([], f)))"
proof -
  note aa = after_author_leading [OF assms(1)]
  note ne = leading_fragment_nonempty [OF assms(1)]
  have pos: "re_quote_fullmatch (content quote) = Some ([], leading_fragment c)
      \<and> leading_fragment c \<noteq> []
      \<and> search_message_by_quote p quote
          = Inr (find (\<lambda>m. contains_ignorecase (leading_fragment c) (content m))
                   (candidates p quote))"
    if nl: "newline \<notin> set (leading_fragment c)"
  proof -
    from nl ne aa have "after_author (''> '' @ c) = Some (leading_fragment c)"
      by (simp add: content_group_eq)
    then have "author_group [] (''> '' @ c) = Some ([], leading_fragment c)" by simp
    with assms(2) have parse: "re_quote_fullmatch (content quote) = Some ([], leading_fragment c)"
      by (simp add: re_quote_fullmatch_def)
    have "passes_checks [] (leading_fragment c)
        = (\<lambda>m. contains_ignorecase (leading_fragment c) (content m))"
      by (rule ext) (simp add: passes_checks_def)
    with search_parsed [OF parse, of p] parse ne show ?thesis by simp
  qed
  have neg: "re_quote_fullmatch (content quote) \<noteq> Some ([], f)"
    if nl: "newline \<in> set (leading_fragment c)" for f
  proof
    assume p: "re_quote_fullmatch (content quote) = Some ([], f)"
    from nl aa have "after_author (CHR ''>'' # CHR '' '' # c) = None"
      by (simp add: content_group_None_iff)
    moreover from p assms(2) have "author_group [] (CHR ''>'' # CHR '' '' # c) = Some ([], f)"
      by (simp add: re_quote_fullmatch_def)
    ultimately show False using author_group_later by blast
  qed
  from pos neg show ?thesis by blast
qed

theorem leading_separator_any_author_witness:
  "''going fishing'' \<noteq> [] \<and> content anyone = ''> '' @ ''going fishing''
   \<and> leading_fragment ''going fishing'' = ''going fishing''
   \<and> re_quote_fullmatch (content anyone) = Some ([], ''going fishing'')
   \<and> search_message_by_quote pond anyone = Inr (Some fishing)
   \<and> ''  going fishing'' \<noteq> [] \<and> content spaced = ''> '' @ ''  going fishing''
   \<and> leading_fragment ''  going fishing'' = ''going fishing''
   \<and> re_quote_fullmatch (content spaced) = Some ([], ''going fishing'')
   \<and> search_message_by_quote pond spaced = Inr (Some fishing)
   \<and> ''  '' \<noteq> [] \<and> leading_fragment ''  '' = '' ''
   \<and> re_quote_fullmatch (''> '' @ ''  '') = Some ([], '' '')"
proof -
  have a1: "''going fishing'' \<noteq> []" and s1: "''  going fishing'' \<noteq> []"
    and b1: "''  '' \<noteq> []" by simp_all
  have a2: "content anyone = ''> '' @ ''going fishing''" by (simp add: anyone_def)
  have s2: "content spaced = ''> '' @ ''  going fishing''" by (simp add: spaced_def)
  have b2: "content (anyone\<lparr>content := ''> '' @ ''  ''\<rparr>) = ''> '' @ ''  ''" by simp
  have a3: "leading_fragment ''going fishing'' = ''going fishing''" by code_simp
  have s3: "leading_fragment ''  going fishing'' = ''going fishing''" by code_simp
  have b3: "leading_fragment ''  '' = '' ''" by code_simp
  have nl: "newline \<notin> set ''going fishing''" "newline \<notin> set '' ''"
    by (simp_all add: newline_def)
  have f1: "find (\<lambda>m. contains_ignorecase ''going fishing'' (content m))
      (candidates pond anyone) = Some fishing" by code_simp
  have f2: "find (\<lambda>m. contains_ignorecase ''going fishing'' (content m))
      (candidates pond spaced) = Some fishing" by code_simp
  from leading_separator_any_author [OF a1 a2, of pond] a3 nl f1
  have ra: "re_quote_fullmatch (content anyone) = Some ([], ''going fishing'')
    \<and> search_message_by_quote pond anyone = Inr (Some fishing)" by simp
  from leading_separator_any_author [OF s1 s2, of pond] s3 nl f2
  have rs: "re_quote_fullmatch (content spaced) = Some ([], ''going fishing'')
    \<and> search_message_by_quote pond spaced = Inr (Some fishing)" by simp
  from leading_separator_any_author [OF b1 b2, of pond] b3 nl
  have rb: "re_quote_fullmatch (''> '' @ ''  '') = Some ([], '' '')" by simp
  from a1 a2 a3 ra s1 s2 s3 rs b1 b3 rb show ?thesis by blast
qed

text \<open>
  The claim as written, for every non-empty \<open>c\<close>, fails: with a line break inside
  \<open>c\<close> the body does not parse.
\<close>

theorem leading_separator_counterexample:
  "''a'' @ [CHR 0x0A] @ ''b'' \<noteq> []
   \<and> re_quote_fullmatch (''> '' @ (''a'' @ [CHR 0x0A] @ ''b'')) = None"
  by code_simp

section \<open>The quote responder\<close>

lemma quote_message_found:
  assumes "search_message_by_quote p quote = Inr (Some found)"
    and "server quote \<noteq> None" and "send_messages p (channel quote)"
  shows "quote_message p quote =
     (let fetched = [LogsFrom (channel quote) log_fetch_limit quote];
          quote_embed = create_quote_embed (author quote) found;
          sent = fetched @ [SendMessage (channel quote) quote_embed];
          tried = sent @ [DeleteMessage quote]
      in case send_failure p of
           Some e \<Rightarrow> \<lparr> calls = sent, posted = [], deleted = [], raised = Some e \<rparr>
         | None \<Rightarrow>
            (case delete_failure p of
               None \<Rightarrow> \<lparr> calls = tried, posted = [quote_embed], deleted = [quote],
                          raised = None \<rparr>
             | Some e \<Rightarrow> \<lparr> calls = tried, posted = [quote_embed], deleted = [],
                            raised = (if e = Forbidden then None else Some e) \<rparr>))"
  using assms by (simp add: quote_message_def Let_def split: option.splits)

lemma quote_message_at_most_once:
  "length (filter is_send (calls (quote_message p quote))) \<le> 1
   \<and> length (filter is_delete (calls (quote_message p quote))) \<le> 1
   \<and> length (posted (quote_message p quote)) \<le> 1
   \<and> length (deleted (quote_message p quote)) \<le> 1"
  by (simp add: quote_message_def Let_def split: sum.splits option.splits)

lemma quote_message_mute:
  assumes "\<not> send_messages p (channel quote)"
  shows "filter is_send (calls (quote_message p quote)) = []
   \<and> filter is_delete (calls (quote_message p quote)) = []
   \<and> posted (quote_message p quote) = []
   \<and> deleted (quote_message p quote) = []"
  using assms by (simp add: quote_message_def Let_def split: sum.splits option.splits)

text \<open>
  C2. When the scanner finds a message and the bot may send, the responder first
  fetches, then sends the citation, and only then, if the send succeeded, asks for
  the trigger to be deleted. A \<open>Forbidden\<close> failure of the delete is swallowed: the
  invocation ends without an error, the citation posted, the trigger not removed.
  Any other failure of the delete is raised to the caller, with the citation posted
  once and nothing sent again. When the send itself fails, its error is raised and no
  delete is asked for.
\<close>

theorem send_then_best_effort_delete:
  assumes "search_message_by_quote p quote = Inr (Some found)"
    and "server quote \<noteq> None" and "send_messages p (channel quote)"
  shows "(send_failure p = None \<longrightarrow>
            calls (quote_message p quote)
              = [LogsFrom (channel quote) log_fetch_limit quote,
                 SendMessage (channel quote) (create_quote_embed (author quote) found),
                 DeleteMessage quote]
          \<and> posted (quote_message p quote) = [create_quote_embed (author quote) found]
          \<and> (delete_failure p = None \<longrightarrow>
                deleted (quote_message p quote) = [quote]
                \<and> raised (quote_message p quote) = None)
          \<and> (delete_failure p = Some Forbidden \<longrightarrow>
                deleted (quote_message p quote) = []
                \<and> raised (quote_message p quote) = None)
          \<and> (\<forall>e. delete_failure p = Some e \<and> e \<noteq> Forbidden \<longrightarrow>
                deleted (quote_message p quote) = []
                \<and> raised (quote_message p quote) = Some e))
     \<and> (\<forall>e. send_failure p = Some e \<longrightarrow>
            calls (quote_message p quote)
              = [LogsFrom (channel quote) log_fetch_limit quote,
                 SendMessage (channel quote) (create_quote_embed (author quote) found)]
          \<and> posted (quote_message p quote) = []
          \<and> deleted (quote_message p quote) = []
          \<and> raised (quote_message p quote) = Some e)"
  by (auto simp: quote_message_found [OF assms] Let_def split: option.splits)

theorem send_then_best_effort_delete_witness:
  "search_message_by_quote pond_forbidden trigger = Inr (Some fishing)
   \<and> server trigger \<noteq> None \<and> send_messages pond_forbidden (channel trigger)
   \<and> send_failure pond_forbidden = None \<and> delete_failure pond_forbidden = Some Forbidden
   \<and> calls (quote_message pond_forbidden trigger)
       = [LogsFrom (channel trigger) log_fetch_limit trigger,
          SendMessage (channel trigger) (create_quote_embed (author trigger) fishing),
          DeleteMessage trigger]
   \<and> posted (quote_message pond_forbidden trigger)
       = [create_quote_embed (author trigger) fishing]
   \<and> deleted (quote_message pond_forbidden trigger) = []
   \<and> raised (quote_message pond_forbidden trigger) = None
   \<and> delete_failure pond_broken = Some HTTPException
   \<and> posted (quote_message pond_broken trigger)
       = [create_quote_embed (author trigger) fishing]
   \<and> deleted (quote_message pond_broken trigger) = []
   \<and> raised (quote_message pond_broken trigger) = Some HTTPException"
proof -
  have b1: "search_message_by_quote pond_broken trigger = Inr (Some fishing)"
    by code_simp
  have b3: "send_messages pond_broken (channel trigger)"
    by (simp add: pond_broken_def pond_def)
  have b4: "send_failure pond_broken = None"
    by (simp add: pond_broken_def pond_def)
  have b5: "delete_failure pond_broken = Some HTTPException"
    by (simp add: pond_broken_def)
  have h1: "search_message_by_quote pond_forbidden trigger = Inr (Some fishing)"
    by code_simp
  have h2: "server trigger \<noteq> None" by (simp add: trigger_def)
  have h3: "send_messages pond_forbidden (channel trigger)"
    by (simp add: pond_forbidden_def pond_def)
  have h4: "send_failure pond_forbidden = None"
    by (simp add: pond_forbidden_def pond_def)
  have h5: "delete_failure pond_forbidden = Some Forbidden"
    by (simp add: pond_forbidden_def)
  from send_then_best_effort_delete [OF h1 h2 h3] h1 h2 h3 h4 h5
  have forbidden: "calls (quote_message pond_forbidden trigger)
       = [LogsFrom (channel trigger) log_fetch_limit trigger,
          SendMessage (channel trigger) (create_quote_embed (author trigger) fishing),
          DeleteMessage trigger]
   \<and> posted (quote_message pond_forbidden trigger)
       = [create_quote_embed (author trigger) fishing]
   \<and> deleted (quote_message pond_forbidden trigger) = []
   \<and> raised (quote_message pond_forbidden trigger) = None"
    by simp
  from send_then_best_effort_delete [OF b1 h2 b3] b4 b5
  have broken: "posted (quote_message pond_broken trigger)
       = [create_quote_embed (author trigger) fishing]
   \<and> deleted (quote_message pond_broken trigger) = []
   \<and> raised (quote_message pond_broken trigger) = Some HTTPException"
    by simp
  from forbidden broken h1 h2 h3 h4 h5 b5 show ?thesis by simp
qed

text \<open>
  C7. When the scanner finds a message but the bot may not send in the trigger's
  channel, the responder makes no send call and no delete call, posts nothing and
  removes nothing. In every invocation of the responder, and of the message handler,
  there is at most one send call and at most one delete call.
\<close>

theorem no_permission_no_effect:
  "(search_message_by_quote p quote = Inr (Some found)
      \<and> \<not> send_messages p (channel quote) \<longrightarrow>
        filter is_send (calls (quote_message p quote)) = []
        \<and> filter is_delete (calls (quote_message p quote)) = []
        \<and> posted (quote_message p quote) = []
        \<and> deleted (quote_message p quote) = [])
   \<and> length (filter is_send (calls (quote_message p quote))) \<le> 1
   \<and> length (filter is_delete (calls (quote_message p quote))) \<le> 1
   \<and> length (filter is_send (calls (on_message p quote))) \<le> 1
   \<and> length (filter is_delete (calls (on_message p quote))) \<le> 1"
  using quote_message_at_most_once [of p quote] quote_message_mute [of p quote]
  by (simp add: on_message_def)

theorem no_permission_no_effect_witness:
  "search_message_by_quote pond_mute trigger = Inr (Some fishing)
   \<and> \<not> send_messages pond_mute (channel trigger)
   \<and> filter is_send (calls (quote_message pond_mute trigger)) = []
   \<and> filter is_delete (calls (quote_message pond_mute trigger)) = []
   \<and> posted (quote_message pond_mute trigger) = []
   \<and> deleted (quote_message pond_mute trigger) = []
   \<and> calls (quote_message pond_mute trigger)
       = [LogsFrom (channel trigger) log_fetch_limit trigger]"
proof -
  have h1: "search_message_by_quote pond_mute trigger = Inr (Some fishing)"
    by code_simp
  have h2: "\<not> send_messages pond_mute (channel trigger)"
    by (simp add: pond_mute_def)
  have h3: "calls (quote_message pond_mute trigger)
       = [LogsFrom (channel trigger) log_fetch_limit trigger]"
    using h1 h2 by (simp add: quote_message_def trigger_def)
  from no_permission_no_effect [of pond_mute trigger fishing] h1 h2 h3
  show ?thesis by simp
qed

end
